theory Spec2Isabelle
  imports Main "HOL-Library.AList"
begin

unbundle bit_operations_syntax

section \<open>Python values used by teleinflux\<close>

text \<open>
  A Python \<open>bytes\<close> object is a list of bytes; an Isabelle \<open>char\<close> is exactly one byte
  (\<open>of_char\<close> reads its value 0..255), so a bytes literal \<open>b'ADCO'\<close> is the string
  \<open>''ADCO''\<close>.  A Python \<open>str\<close> is a different type: the list of its Unicode code
  points.  \<open>ascii\<close> writes a \<open>str\<close> literal.
\<close>

type_synonym bytes = string
type_synonym str = "nat list"

definition ascii :: "string \<Rightarrow> str" where
  "ascii s = map of_char s"

datatype pyval = PyBytes bytes | PyStr str | PyInt int

text \<open>
  The exceptions the code can raise.  \<open>TeleinfoException\<close> carries what its message is
  built from in \<open>_parse_frame\<close>: the line, \<open>_sum\<close>, \<open>checksum[0]\<close> and the frame data.
\<close>

datatype error =
    TeleinfoException bytes nat nat bytes
  | ValueError
  | IndexError
  | UnicodeDecodeError
  | AttributeError

fun is_TeleinfoException :: "error \<Rightarrow> bool" where
  "is_TeleinfoException (TeleinfoException line s c frame_data) = True"
| "is_TeleinfoException e = False"

subsection \<open>\<open>bytes.strip()\<close>\<close>

text \<open>With no argument, \<open>strip\<close> removes ASCII whitespace: space, \<open>\t \n \r \x0b \f\<close>.\<close>

definition is_space :: "char \<Rightarrow> bool" where
  "is_space c = (c \<in> set [CHR 0x20, CHR 0x09, CHR 0x0A, CHR 0x0D, CHR 0x0B, CHR 0x0C])"

definition bytes_strip :: "bytes \<Rightarrow> bytes" where
  "bytes_strip s = rev (dropWhile is_space (rev (dropWhile is_space s)))"

subsection \<open>\<open>bytes.split(sep, maxsplit)\<close>\<close>

text \<open>
  Left to right, the text is cut at each occurrence of the (non-empty) separator until
  \<open>maxsplit\<close> cuts are made (\<open>None\<close>: no limit); what is left is the last element, so
  the result is never empty: \<open>b''.split(b'\r\n') = [b'']\<close>.  \<open>cur\<close> is the element
  being collected.
\<close>

function split_from :: "bytes \<Rightarrow> nat option \<Rightarrow> bytes \<Rightarrow> bytes \<Rightarrow> bytes list" where
  "split_from sep n cur [] = [cur]"
| "split_from sep n cur (c # cs) =
     (if sep = [] \<or> n = Some 0 then [cur @ c # cs]
      else if take (length sep) (c # cs) = sep
      then cur # split_from sep (map_option (\<lambda>k. k - 1) n) [] (drop (length sep) (c # cs))
      else split_from sep n (cur @ [c]) cs)"
  by pat_completeness auto
termination
  by (relation "measure (\<lambda>(sep, n, cur, s). length s)") auto

definition bytes_split :: "bytes \<Rightarrow> nat option \<Rightarrow> bytes \<Rightarrow> bytes list" where
  "bytes_split sep maxsplit s = split_from sep maxsplit [] s"

subsection \<open>\<open>bytes.decode()\<close>: strict UTF-8\<close>

definition cont :: "nat \<Rightarrow> bool" where
  "cont b = (0x80 \<le> b \<and> b \<le> 0xBF)"

fun decode_utf8 :: "nat list \<Rightarrow> error + str" where
  "decode_utf8 [] = Inr []"
| "decode_utf8 (b0 # bs) =
     (if b0 < 0x80 then map_sum id ((#) b0) (decode_utf8 bs)
      else if 0xC2 \<le> b0 \<and> b0 \<le> 0xDF then
        (case bs of
           b1 # r \<Rightarrow>
             if cont b1
             then map_sum id ((#) ((b0 - 0xC0) * 64 + (b1 - 0x80))) (decode_utf8 r)
             else Inl UnicodeDecodeError
         | _ \<Rightarrow> Inl UnicodeDecodeError)
      else if 0xE0 \<le> b0 \<and> b0 \<le> 0xEF then
        (case bs of
           b1 # b2 # r \<Rightarrow>
             if cont b1 \<and> cont b2
                \<and> (if b0 = 0xE0 then 0xA0 \<le> b1 else True)
                \<and> (if b0 = 0xED then b1 \<le> 0x9F else True)
             then map_sum id ((#) ((b0 - 0xE0) * 4096 + (b1 - 0x80) * 64 + (b2 - 0x80)))
                    (decode_utf8 r)
             else Inl UnicodeDecodeError
         | _ \<Rightarrow> Inl UnicodeDecodeError)
      else if 0xF0 \<le> b0 \<and> b0 \<le> 0xF4 then
        (case bs of
           b1 # b2 # b3 # r \<Rightarrow>
             if cont b1 \<and> cont b2 \<and> cont b3
                \<and> (if b0 = 0xF0 then 0x90 \<le> b1 else True)
                \<and> (if b0 = 0xF4 then b1 \<le> 0x8F else True)
             then map_sum id
                    ((#) ((b0 - 0xF0) * 262144 + (b1 - 0x80) * 4096 + (b2 - 0x80) * 64
                          + (b3 - 0x80)))
                    (decode_utf8 r)
             else Inl UnicodeDecodeError
         | _ \<Rightarrow> Inl UnicodeDecodeError)
      else Inl UnicodeDecodeError)"

definition decode :: "bytes \<Rightarrow> error + str" where
  "decode b = decode_utf8 (map of_char b)"

subsection \<open>\<open>str.rstrip('.')\<close> and \<open>int(str)\<close>\<close>

definition str_rstrip :: "nat \<Rightarrow> str \<Rightarrow> str" where
  "str_rstrip ch s = rev (dropWhile (\<lambda>c. c = ch) (rev s))"

text \<open>
  \<open>int(s)\<close> in base 10: whitespace around the text is skipped, one sign is allowed, then
  decimal digits, where a single underscore may stand between two digits.  Anything else
  is a \<open>ValueError\<close>.  The function is exact on 7-bit text; the interpreter also reads
  the decimal digits and spaces of other scripts, whose tables are no part of this
  development, and newer interpreters refuse texts of more than 4300 digits, so the
  results about Integer fields below are stated for 7-bit values of at most that length.
\<close>

definition is_digit :: "nat \<Rightarrow> bool" where
  "is_digit c = (48 \<le> c \<and> c \<le> 57)"

definition is_space_cp :: "nat \<Rightarrow> bool" where
  "is_space_cp c = (c \<in> set [0x20, 0x09, 0x0A, 0x0B, 0x0C, 0x0D])"

fun digits_from :: "nat \<Rightarrow> str \<Rightarrow> nat option" where
  "digits_from acc [] = Some acc"
| "digits_from acc (c # cs) =
     (if is_digit c then digits_from (10 * acc + (c - 48)) cs
      else if c = 95 then
        (case cs of
           d # ds \<Rightarrow> if is_digit d then digits_from (10 * acc + (d - 48)) ds else None
         | [] \<Rightarrow> None)
      else None)"

definition digits_value :: "str \<Rightarrow> nat option" where
  "digits_value s =
     (case s of
        c # cs \<Rightarrow> if is_digit c then digits_from (c - 48) cs else None
      | [] \<Rightarrow> None)"

definition py_int :: "str \<Rightarrow> error + int" where
  "py_int s =
     (let t = rev (dropWhile is_space_cp (rev (dropWhile is_space_cp s)));
          (sign, u) = (case t of
                         c # r \<Rightarrow> if c = 43 then (1, r) else if c = 45 then (- 1, r)
                                  else (1, t)
                       | [] \<Rightarrow> (1, t))
      in case digits_value u of
           None \<Rightarrow> Inl ValueError
         | Some n \<Rightarrow> Inr (sign * int n))"

section \<open>\<open>TeleinfoFrame\<close>\<close>

text \<open>
  The frame keeps the raw fields in a dict, which remembers insertion order: an
  association list updated in place.  Its second attribute, the capture time read from
  the clock by the constructor, plays no part in what follows and is left out.
\<close>

record TeleinfoFrame =
  raw_data :: "(str \<times> bytes) list"

definition FIELD_FORMAT :: "(str \<times> string) list" where
  "FIELD_FORMAT =
     [(ascii ''ADCO'', ''str''),
      (ascii ''OPTARIF'', ''str''),
      (ascii ''ISOUSC'', ''int''),
      (ascii ''HCHC'', ''int''),
      (ascii ''HCHP'', ''int''),
      (ascii ''PTEC'', ''str''),
      (ascii ''IINST'', ''int''),
      (ascii ''IMAX'', ''int''),
      (ascii ''PAPP'', ''int''),
      (ascii ''HHPHC'', ''str''),
      (ascii ''MOTDETAT'', ''str'')]"

text \<open>
  \<open>value.decode()\<close>: only \<open>bytes\<close> has the method; on a \<open>str\<close> or an \<open>int\<close> the
  attribute lookup raises \<open>AttributeError\<close>.
\<close>

definition format_str :: "pyval \<Rightarrow> error + pyval" where
  "format_str v =
     (case v of
        PyBytes b \<Rightarrow>
          (case decode b of Inl e \<Rightarrow> Inl e | Inr s \<Rightarrow> Inr (PyStr (str_rstrip 46 s)))
      | _ \<Rightarrow> Inl AttributeError)"

definition format_int :: "pyval \<Rightarrow> error + pyval" where
  "format_int v =
     (case v of
        PyBytes b \<Rightarrow>
          (case decode b of
             Inl e \<Rightarrow> Inl e
           | Inr s \<Rightarrow> (case py_int s of Inl e \<Rightarrow> Inl e | Inr i \<Rightarrow> Inr (PyInt i)))
      | _ \<Rightarrow> Inl AttributeError)"

text \<open>
  \<open>getattr(self, field_formatter)\<close>: the two formatters the class has.  The
  \<open>assert field_formatter\<close> before it holds of every non-empty name and is left out.
\<close>

definition getattr :: "string \<Rightarrow> (pyval \<Rightarrow> error + pyval) option" where
  "getattr name =
     (if name = ''_format_str'' then Some format_str
      else if name = ''_format_int'' then Some format_int
      else None)"

definition get :: "TeleinfoFrame \<Rightarrow> str \<Rightarrow> error + pyval" where
  "get self key =
     (let field_format = (case map_of FIELD_FORMAT key of Some f \<Rightarrow> f | None \<Rightarrow> ''str'');
          field_formatter = ''_format_'' @ field_format;
          v = (case map_of (raw_data self) key of Some b \<Rightarrow> PyBytes b | None \<Rightarrow> PyStr [])
      in case getattr field_formatter of
           None \<Rightarrow> Inl AttributeError
         | Some formatter \<Rightarrow> formatter v)"

fun format_keys :: "TeleinfoFrame \<Rightarrow> str list \<Rightarrow> error + (str \<times> pyval) list" where
  "format_keys self [] = Inr []"
| "format_keys self (key # keys) =
     (case get self key of
        Inl e \<Rightarrow> Inl e
      | Inr v \<Rightarrow> map_sum id ((#) (key, v)) (format_keys self keys))"

definition format_fields :: "TeleinfoFrame \<Rightarrow> error + (str \<times> pyval) list" where
  "format_fields self = format_keys self (map fst (raw_data self))"

section \<open>\<open>TeleinfoReader\<close>\<close>

subsection \<open>\<open>_parse_frame\<close>\<close>

text \<open>\<open>_sum = (sum(int(b) for b in line[0:-2]) & 0x3F) + 0x20\<close>\<close>

definition line_sum :: "bytes \<Rightarrow> nat" where
  "line_sum line = (sum_list (map of_char (take (length line - 2) line)) AND 0x3F) + 0x20"

text \<open>
  The body of the loop over the lines.  Unpacking fewer than three tokens raises
  \<open>ValueError\<close>; \<open>checksum[0]\<close> on an empty token raises \<open>IndexError\<close>; a checksum
  that differs raises \<open>TeleinfoException\<close>; \<open>label.decode()\<close> may raise
  \<open>UnicodeDecodeError\<close>.  Otherwise the line gives the key and the raw value to store.
\<close>

definition parse_line :: "bytes \<Rightarrow> bytes \<Rightarrow> error + (str \<times> bytes)" where
  "parse_line frame_data line =
     (case bytes_split '' '' (Some 2) line of
        [label, val, checksum] \<Rightarrow>
          (case checksum of
             [] \<Rightarrow> Inl IndexError
           | c # rest \<Rightarrow>
               if line_sum line = of_char c
               then (case decode label of Inl e \<Rightarrow> Inl e | Inr key \<Rightarrow> Inr (key, val))
               else Inl (TeleinfoException line (line_sum line) (of_char c) frame_data))
      | _ \<Rightarrow> Inl ValueError)"

fun parse_lines ::
  "bytes \<Rightarrow> bytes list \<Rightarrow> (str \<times> bytes) list \<Rightarrow> error + (str \<times> bytes) list" where
  "parse_lines frame_data [] parsed_frame = Inr parsed_frame"
| "parse_lines frame_data (line # lines) parsed_frame =
     (case parse_line frame_data line of
        Inl e \<Rightarrow> Inl e
      | Inr (key, val) \<Rightarrow> parse_lines frame_data lines (AList.update key val parsed_frame))"

definition frame_lines :: "bytes \<Rightarrow> bytes list" where
  "frame_lines frame_data = bytes_split [CHR 0x0D, CHR 0x0A] None (bytes_strip frame_data)"

definition parse_frame :: "bytes \<Rightarrow> error + TeleinfoFrame" where
  "parse_frame frame_data =
     (case parse_lines frame_data (frame_lines frame_data) [] of
        Inl e \<Rightarrow> Inl e
      | Inr parsed_frame \<Rightarrow> Inr \<lparr>raw_data = parsed_frame\<rparr>)"

subsection \<open>\<open>read_frame\<close>\<close>

text \<open>
  The reader is the list of bytes still to come; \<open>read(1)\<close> takes the first one, and
  gives nothing when the list is empty (end of file, or the serial timeout).  The call
  returns its result and the bytes it has not read.
\<close>

fun read_loop ::
  "bool \<Rightarrow> bytes \<Rightarrow> bytes \<Rightarrow> (error + TeleinfoFrame option) \<times> bytes" where
  "read_loop started frame_buffer [] = (Inr None, [])"
| "read_loop started frame_buffer (b # reader) =
     (if started then
        (if b = CHR 0x03
         then (case parse_frame frame_buffer of
                 Inl e \<Rightarrow> (Inl e, reader)
               | Inr frame \<Rightarrow> (Inr (Some frame), reader))
         else read_loop started (frame_buffer @ [b]) reader)
      else if b = CHR 0x02 then read_loop True frame_buffer reader
      else read_loop started frame_buffer reader)"

definition read_frame :: "bytes \<Rightarrow> (error + TeleinfoFrame option) \<times> bytes" where
  "read_frame reader = read_loop False [] reader"

subsection \<open>The reading loop of \<open>Teleinflux.run\<close>\<close>

text \<open>
  The loop reads frames until the reader has nothing more.  A \<open>TeleinfoException\<close>
  raised by \<open>read_frame\<close> is caught, logged, and the loop goes on; every other
  exception leaves the loop and ends \<open>run\<close>.  Each frame read is formatted
  (\<open>format_fields\<close>) and handed to the database writer; the result lists what was
  handed over, and how the loop ended.  The stop flag set by a signal is taken to stay
  unset, and the database is outside this development.
\<close>

datatype outcome = Stopped | Raised error

function run_loop :: "bytes \<Rightarrow> (str \<times> pyval) list list \<times> outcome" where
  "run_loop reader =
     (case read_frame reader of
        (Inl e, reader') \<Rightarrow>
          if is_TeleinfoException e then run_loop reader' else ([], Raised e)
      | (Inr None, reader') \<Rightarrow> ([], Stopped)
      | (Inr (Some frame), reader') \<Rightarrow>
          (case format_fields frame of
             Inl e \<Rightarrow> ([], Raised e)
           | Inr formatted \<Rightarrow>
               (case run_loop reader' of (written, out) \<Rightarrow> (formatted # written, out))))"
  by pat_completeness auto
termination
proof (relation "measure length")
  have shorter: "length rest < length reader"
    if "read_loop started buf reader = (res, rest)" and "res \<noteq> Inr None"
    for started buf reader res rest
    using that
  proof (induction reader arbitrary: started buf)
    case Nil
    then show ?case by simp
  next
    case (Cons b reader)
    then show ?case
      by (fastforce split: if_splits sum.splits)
  qed
  show "wf (measure length)" by simp
  show "(reader', reader) \<in> measure length"
    if "(res, reader') = read_frame reader" and "res = Inl e"
    for reader res reader' e
    using shorter [of False "[]" reader res reader'] that
    by (simp add: read_frame_def)
  show "(reader', reader) \<in> measure length"
    if "(res, reader') = read_frame reader" and "res = Inr r" and "r = Some frame"
    for reader res reader' r frame
    using shorter [of False "[]" reader res reader'] that
    by (simp add: read_frame_def)
qed

declare run_loop.simps [simp del]

section \<open>Notions used to state the properties\<close>

text \<open>\<open>sep.join(parts)\<close>, the inverse of \<open>split\<close>.\<close>

fun bytes_join :: "bytes \<Rightarrow> bytes list \<Rightarrow> bytes" where
  "bytes_join sep [] = []"
| "bytes_join sep [t] = t"
| "bytes_join sep (t # ts) = t @ sep @ bytes_join sep ts"

text \<open>
  The checksum a line carries, as the parser reads it: the first byte of the third
  token, when the line has three tokens and the third is not empty.
\<close>

definition embedded_checksum :: "bytes \<Rightarrow> nat option" where
  "embedded_checksum line =
     (case bytes_split '' '' (Some 2) line of
        [label, val, c # rest] \<Rightarrow> Some (of_char c)
      | _ \<Rightarrow> None)"

text \<open>A line that the loop body accepts, raising nothing.\<close>

definition line_ok :: "bytes \<Rightarrow> bytes \<Rightarrow> bool" where
  "line_ok frame_data line =
     (case parse_line frame_data line of Inr kv \<Rightarrow> True | Inl e \<Rightarrow> False)"

text \<open>The value on the last accepted line of \<open>lines\<close> that carries the label \<open>key\<close>.\<close>

fun last_value :: "str \<Rightarrow> bytes \<Rightarrow> bytes list \<Rightarrow> bytes option" where
  "last_value key frame_data [] = None"
| "last_value key frame_data (line # lines) =
     (case last_value key frame_data lines of
        Some v \<Rightarrow> Some v
      | None \<Rightarrow>
          (case parse_line frame_data line of
             Inr (k, v) \<Rightarrow> if k = key then Some v else None
           | Inl e \<Rightarrow> None))"

text \<open>The number a text of decimal digits denotes.\<close>

definition dec_value :: "str \<Rightarrow> nat" where
  "dec_value ds = foldl (\<lambda>a c. 10 * a + (c - 48)) 0 ds"

text \<open>
  The characters a base-10 integer text may hold: digits, a sign, the underscore and the
  whitespace around it.
\<close>

definition int_char :: "nat \<Rightarrow> bool" where
  "int_char c = (is_digit c \<or> c = 43 \<or> c = 45 \<or> c = 95 \<or> is_space_cp c)"

section \<open>The frame extractor\<close>

lemma read_loop_capturing:
  "CHR 0x03 \<notin> set xs \<Longrightarrow>
   read_loop True buf (xs @ reader) = read_loop True (buf @ xs) reader"
  by (induction xs arbitrary: buf) auto

lemma read_loop_idle:
  "CHR 0x02 \<notin> set xs \<Longrightarrow> read_loop False buf (xs @ reader) = read_loop False buf reader"
  by (induction xs) auto

text \<open>
  C5.  While the extractor is capturing (\<open>started\<close> is set), a byte other than the end
  marker 0x03 is appended to the frame buffer as it is, and the extractor goes on
  capturing with the extended buffer; this holds for the start marker 0x02 as for any
  other byte.  So a run of bytes without an end marker, whatever start markers it holds,
  is appended whole and in order, and the end marker that follows parses the buffer so
  extended: nothing in the buffer is cleared and the frame is not started again.
\<close>

theorem capturing_appends_verbatim:
  "(b \<noteq> CHR 0x03 \<longrightarrow>
      read_loop True frame_buffer (b # reader)
        = read_loop True (frame_buffer @ [b]) reader)
   \<and> read_loop True frame_buffer (CHR 0x02 # reader)
        = read_loop True (frame_buffer @ [CHR 0x02]) reader
   \<and> (CHR 0x03 \<notin> set xs \<longrightarrow>
        read_loop True frame_buffer (xs @ CHR 0x03 # reader)
          = (case parse_frame (frame_buffer @ xs) of
               Inl e \<Rightarrow> (Inl e, reader)
             | Inr frame \<Rightarrow> (Inr (Some frame), reader)))"
  by (simp add: read_loop_capturing)

theorem capturing_appends_verbatim_witness:
  "CHR ''B'' \<noteq> CHR 0x03
   \<and> read_loop True ''A'' (CHR ''B'' # ''rest'') = read_loop True (''A'' @ [CHR ''B'']) ''rest''
   \<and> read_loop True ''A'' (CHR 0x02 # ''rest'') = read_loop True (''A'' @ [CHR 0x02]) ''rest''
   \<and> CHR 0x03 \<notin> set [CHR 0x02, CHR ''B'']
   \<and> read_loop True ''A'' ([CHR 0x02, CHR ''B''] @ CHR 0x03 # ''rest'')
        = (case parse_frame (''A'' @ [CHR 0x02, CHR ''B'']) of
             Inl e \<Rightarrow> (Inl e, ''rest'')
           | Inr frame \<Rightarrow> (Inr (Some frame), ''rest''))"
  using capturing_appends_verbatim [of "CHR ''B''" "''A''" "''rest''" "[CHR 0x02, CHR ''B'']"]
  by simp

text \<open>
  C6.  When the stream ends after a start marker and before any end marker (no 0x02 in
  what precedes the marker, no 0x03 in what follows it), \<open>read_frame\<close> returns
  \<open>None\<close>: no frame, no error, and the bytes collected so far are dropped with the
  call.  A stream with no start marker at all gives \<open>None\<close> as well.
\<close>

theorem unterminated_frame_gives_none:
  "CHR 0x03 \<notin> set rest \<Longrightarrow>
   CHR 0x02 \<notin> set pre \<Longrightarrow>
   read_frame (pre @ CHR 0x02 # rest) = (Inr None, []) \<and> read_frame pre = (Inr None, [])"
  using read_loop_capturing [of rest "[]" "[]"] read_loop_idle [of pre "[]" "CHR 0x02 # rest"]
    read_loop_idle [of pre "[]" "[]"]
  by (simp add: read_frame_def)

theorem unterminated_frame_gives_none_witness:
  "CHR 0x03 \<notin> set ''A B C''
   \<and> CHR 0x02 \<notin> set ''xy''
   \<and> read_frame (''xy'' @ CHR 0x02 # ''A B C'') = (Inr None, [])
   \<and> read_frame ''xy'' = (Inr None, [])"
  using unterminated_frame_gives_none [of "''A B C''" "''xy''"]
  by simp

text \<open>
  C7.  Bytes before the first start marker are dropped: for every byte sequence \<open>N\<close>
  without 0x02 and every input \<open>F\<close> (a valid framed input in particular),
  \<open>read_frame\<close> on \<open>N\<close> followed by \<open>F\<close> returns what it returns on \<open>F\<close>
  alone, the same record or error and the same unread bytes.
\<close>

theorem leading_noise_is_discarded:
  "CHR 0x02 \<notin> set N \<Longrightarrow> read_frame (N @ F) = read_frame F"
  by (simp add: read_frame_def read_loop_idle)

theorem leading_noise_is_discarded_witness:
  "CHR 0x02 \<notin> set ''xyz''
   \<and> read_frame (''xyz'' @ CHR 0x02 # ''A B C'' @ [CHR 0x03])
        = read_frame (CHR 0x02 # ''A B C'' @ [CHR 0x03])
   \<and> read_frame (CHR 0x02 # ''A B C'' @ [CHR 0x03])
        = (Inr (Some \<lparr>raw_data = [(ascii ''A'', ''B'')]\<rparr>), [])"
proof -
  have "read_frame (CHR 0x02 # ''A B C'' @ [CHR 0x03])
          = (Inr (Some \<lparr>raw_data = [(ascii ''A'', ''B'')]\<rparr>), [])"
    by code_simp
  then show ?thesis
    using leading_noise_is_discarded [of "''xyz''" "CHR 0x02 # ''A B C'' @ [CHR 0x03]"]
    by simp
qed

section \<open>The line parser\<close>

subsection \<open>Splitting and joining\<close>

lemma split_from_nonempty: "split_from sep n cur s \<noteq> []"
  by (induction sep n cur s rule: split_from.induct) auto

lemma join_split_from: "bytes_join sep (split_from sep n cur s) = cur @ s"
proof (induction sep n cur s rule: split_from.induct)
  case (1 sep n cur)
  then show ?case by simp
next
  case (2 sep n cur c cs)
  show ?case
  proof (cases "sep = [] \<or> n = Some 0")
    case True
    then show ?thesis by auto
  next
    case stop: False
    show ?thesis
    proof (cases "take (length sep) (c # cs) = sep")
      case True
      let ?rest = "split_from sep (map_option (\<lambda>k. k - 1) n) [] (drop (length sep) (c # cs))"
      obtain t ts where ts: "?rest = t # ts"
        using split_from_nonempty [of sep "map_option (\<lambda>k. k - 1) n" "[]" "drop (length sep) (c # cs)"]
        by (cases ?rest) auto
      have "bytes_join sep ?rest = drop (length sep) (c # cs)"
        using 2(1) stop True by simp
      moreover have "sep @ drop (length sep) (c # cs) = c # cs"
        using True append_take_drop_id [of "length sep" "c # cs"] by simp
      ultimately have "bytes_join sep (cur # ?rest) = cur @ c # cs"
        using ts by simp
      then show ?thesis using stop True by simp
    next
      case False
      then show ?thesis using 2(2) stop by simp
    qed
  qed
qed

lemma join_bytes_split: "bytes_join sep (bytes_split sep n s) = s"
  by (simp add: bytes_split_def join_split_from)

lemma three_tokens:
  "bytes_split '' '' (Some 2) line = [label, val, checksum] \<Longrightarrow>
   line = label @ '' '' @ val @ '' '' @ checksum"
  using join_bytes_split [of "'' ''" "Some 2" line] by simp

lemma and_63: "(n::nat) AND 0x3F = n mod 64"
  using take_bit_eq_mask [of 6 n] by (simp add: take_bit_eq_mod mask_eq_exp_minus_1)

lemma line_sum_mask:
  "line_sum line = (sum_list (map of_char (butlast (butlast line))) AND 0x3F) + 0x20"
  by (simp add: line_sum_def butlast_conv_take numeral_2_eq_2)

lemma line_sum_formula:
  "line_sum line = sum_list (map of_char (butlast (butlast line))) mod 64 + 32"
  by (simp add: line_sum_def and_63 butlast_conv_take numeral_2_eq_2)

subsection \<open>Lines and their errors\<close>

lemma bytes_strip_spaces: "list_all is_space s \<Longrightarrow> bytes_strip s = []"
  by (auto simp: bytes_strip_def list_all_iff dest: set_dropWhileD)

lemma frame_lines_spaces: "list_all is_space s \<Longrightarrow> frame_lines s = [[]]"
  by (simp add: frame_lines_def bytes_strip_spaces bytes_split_def)

lemma parse_line_empty: "parse_line fd [] = Inl ValueError"
  by (simp add: parse_line_def bytes_split_def)

lemma parse_line_few_tokens:
  "length (bytes_split '' '' (Some 2) line) < 3 \<Longrightarrow> parse_line fd line = Inl ValueError"
  by (auto simp: parse_line_def split: list.splits)

lemma parse_lines_first_error:
  "list_all (line_ok fd) pre \<Longrightarrow> parse_line fd line = Inl e \<Longrightarrow>
   parse_lines fd (pre @ line # post) acc = Inl e"
  by (induction pre arbitrary: acc) (auto split: sum.splits simp: line_ok_def)

lemma parse_lines_some_error:
  "line \<in> set lines \<Longrightarrow> parse_line fd line = Inl e \<Longrightarrow> \<exists>e'. parse_lines fd lines acc = Inl e'"
  by (induction lines arbitrary: acc) (auto split: sum.splits)

lemma parse_line_mismatch:
  "embedded_checksum line = Some c \<Longrightarrow> line_sum line \<noteq> c \<Longrightarrow>
   parse_line fd line = Inl (TeleinfoException line (line_sum line) c fd)"
  by (auto simp: embedded_checksum_def parse_line_def split: list.splits)

lemma parse_lines_fields:
  "parse_lines fd lines acc = Inr res \<Longrightarrow> distinct (map fst acc) \<Longrightarrow>
   distinct (map fst res) \<and>
   map_of res key = (case last_value key fd lines of Some v \<Rightarrow> Some v | None \<Rightarrow> map_of acc key)"
proof (induction lines arbitrary: acc)
  case Nil
  then show ?case by simp
next
  case (Cons line lines)
  then obtain k v where kv: "parse_line fd line = Inr (k, v)"
    and rest: "parse_lines fd lines (AList.update k v acc) = Inr res"
    by (auto split: sum.splits)
  have "distinct (map fst (AList.update k v acc))"
    using Cons.prems(2) by (simp add: distinct_update)
  from Cons.IH [OF rest this] show ?case
    using kv by (auto simp: update_conv' split: option.splits)
qed


lemma map_sum_id_Inl: "map_sum id g x = Inl e \<Longrightarrow> x = Inl e"
  by (cases x) auto

lemma decode_utf8_error: "decode_utf8 bs = Inl e \<Longrightarrow> e = UnicodeDecodeError"
proof (induction bs arbitrary: e rule: decode_utf8.induct)
  case 1
  then show ?case by simp
next
  case (2 b0 bs)
  show ?case
  proof (cases "b0 < 0x80")
    case True
    with "2.prems" have "decode_utf8 bs = Inl e"
      by (auto dest: map_sum_id_Inl)
    with True "2.IH"(1) show ?thesis by blast
  next
    case n1: False
    show ?thesis
    proof (cases "0xC2 \<le> b0 \<and> b0 \<le> 0xDF")
      case True
      with n1 "2.prems" "2.IH"(2) show ?thesis
        by (auto split: list.splits if_splits dest!: map_sum_id_Inl)
    next
      case n2: False
      show ?thesis
      proof (cases "0xE0 \<le> b0 \<and> b0 \<le> 0xEF")
        case True
        with n1 n2 "2.prems" "2.IH"(3) show ?thesis
          by (simp split: list.splits if_splits) (blast dest!: map_sum_id_Inl)+
      next
        case n3: False
        show ?thesis
        proof (cases "0xF0 \<le> b0 \<and> b0 \<le> 0xF4")
          case True
          with n1 n2 n3 "2.prems" "2.IH"(4) show ?thesis
            by (simp split: list.splits if_splits) (blast dest!: map_sum_id_Inl)+
        next
          case False
          with n1 n2 n3 "2.prems" show ?thesis by (simp split: if_splits)
        qed
      qed
    qed
  qed
qed

lemma decode_error: "decode b = Inl e \<Longrightarrow> e = UnicodeDecodeError"
  by (simp add: decode_def decode_utf8_error)

lemma parse_frame_Inl: "parse_lines fd (frame_lines fd) [] = Inl e \<Longrightarrow> parse_frame fd = Inl e"
  by (simp add: parse_frame_def)

lemma read_frame_one:
  "CHR 0x02 \<notin> set noise \<Longrightarrow> CHR 0x03 \<notin> set payload \<Longrightarrow>
   read_frame (noise @ CHR 0x02 # payload @ CHR 0x03 # rest)
     = (case parse_frame payload of
          Inl e \<Rightarrow> (Inl e, rest)
        | Inr frame \<Rightarrow> (Inr (Some frame), rest))"
  using read_loop_idle [of noise "[]" "CHR 0x02 # payload @ CHR 0x03 # rest"]
    read_loop_capturing [of payload "[]" "CHR 0x03 # rest"]
  by (simp add: read_frame_def)

text \<open>
  C2, as the spec states it, fails: the empty payload is not parsed into an empty
  record.  \<open>split\<close> gives one element for the empty text, the empty line, and unpacking
  its single token into three raises.
\<close>

theorem empty_payload_counterexample: "parse_frame [] = Inl ValueError"
  by (simp add: parse_frame_def frame_lines_def bytes_strip_def bytes_split_def parse_line_empty)

text \<open>
  C2, amended.  Parsing an empty frame payload (zero bytes, or whitespace only) does not
  succeed: the trimmed payload splits into exactly one line, the empty one, not into
  zero lines; that line has fewer than three tokens, so parsing fails and no record is
  returned.
\<close>

theorem blank_payload_fails:
  "list_all is_space payload \<Longrightarrow>
   frame_lines payload = [[]] \<and> (\<exists>e. parse_frame payload = Inl e)"
  by (simp add: frame_lines_spaces parse_frame_def parse_line_empty)

theorem blank_payload_fails_witness:
  "list_all is_space [CHR 0x20, CHR 0x0D, CHR 0x0A]
   \<and> frame_lines [CHR 0x20, CHR 0x0D, CHR 0x0A] = [[]]
   \<and> (\<exists>e. parse_frame [CHR 0x20, CHR 0x0D, CHR 0x0A] = Inl e)"
  using blank_payload_fails [of "[CHR 0x20, CHR 0x0D, CHR 0x0A]"]
  by (simp add: is_space_def)

text \<open>
  C3, as the spec states it, fails where the third token is longer than one byte: the
  parser compares its sum with the first byte of that token, not with the last byte of
  the line.  The line \<open>A B #Y\<close> is accepted (its sum is 35, the value of \<open>#\<close>), and
  its last byte is \<open>Y\<close>, 89.
\<close>

theorem checksum_last_byte_counterexample:
  "bytes_split '' '' (Some 2) ''A B #Y'' = [''A'', ''B'', ''#Y'']
   \<and> line_sum ''A B #Y'' = 35
   \<and> of_char (last ''A B #Y'') = (89::nat)
   \<and> parse_frame ''A B #Y'' = Inr \<lparr>raw_data = [(ascii ''A'', ''B'')]\<rparr>"
  by code_simp

text \<open>
  C3, amended.  For every line the checksum the parser computes is the sum of the values
  of all bytes of the line but the last two, masked with 0x3F (that is, modulo 64), plus
  0x20.  A line of three tokens whose third token is not empty is the label, a space,
  the value, a space and the third token; it fails the checksum test exactly when the
  computed checksum differs from the value of the first byte of the third token.  When
  the third token is a single byte, that byte is the last byte of the line.
\<close>

theorem line_checksum:
  "line_sum line = (sum_list (map of_char (butlast (butlast line))) AND 0x3F) + 0x20
   \<and> line_sum line = sum_list (map of_char (butlast (butlast line))) mod 64 + 32
   \<and> (bytes_split '' '' (Some 2) line = [label, val, c # rest] \<longrightarrow>
        line = label @ '' '' @ val @ '' '' @ c # rest
        \<and> ((parse_line frame_data line
              = Inl (TeleinfoException line (line_sum line) (of_char c) frame_data))
             = (line_sum line \<noteq> of_char c))
        \<and> (\<forall>e. parse_line frame_data line = Inl e \<and> is_TeleinfoException e
               \<longrightarrow> line_sum line \<noteq> of_char c)
        \<and> (rest = [] \<longrightarrow> c = last line))"
proof -
  have "line = label @ '' '' @ val @ '' '' @ c # rest \<and> (rest = [] \<longrightarrow> c = last line)"
    if "bytes_split '' '' (Some 2) line = [label, val, c # rest]"
    using three_tokens [OF that] by auto
  moreover have "(parse_line frame_data line
              = Inl (TeleinfoException line (line_sum line) (of_char c) frame_data))
             = (line_sum line \<noteq> of_char c)"
    if "bytes_split '' '' (Some 2) line = [label, val, c # rest]"
    using that by (auto simp: parse_line_def split: sum.splits dest: decode_error)
  moreover have "line_sum line \<noteq> of_char c"
    if "bytes_split '' '' (Some 2) line = [label, val, c # rest]"
      and "parse_line frame_data line = Inl e" and "is_TeleinfoException e" for e
    using that by (auto simp: parse_line_def split: sum.splits if_splits dest: decode_error)
  ultimately show ?thesis
    using line_sum_formula [of line] line_sum_mask [of line] by blast
qed


theorem line_checksum_witness:
  "line_sum ''A B C'' = (sum_list (map of_char (butlast (butlast ''A B C''))) AND 0x3F) + 0x20
   \<and> line_sum ''A B C'' = sum_list (map of_char (butlast (butlast ''A B C''))) mod 64 + 32
   \<and> line_sum ''A B C'' = 67
   \<and> bytes_split '' '' (Some 2) ''A B C'' = [''A'', ''B'', CHR ''C'' # []]
   \<and> ''A B C'' = ''A'' @ '' '' @ ''B'' @ '' '' @ CHR ''C'' # []
   \<and> parse_line ''A B C'' ''A B C'' \<noteq> Inl (TeleinfoException ''A B C'' 67 67 ''A B C'')
   \<and> CHR ''C'' = last ''A B C''"
proof -
  have t: "bytes_split '' '' (Some 2) ''A B C'' = [''A'', ''B'', CHR ''C'' # []]"
    by code_simp
  have s: "line_sum ''A B C'' = 67" by code_simp
  show ?thesis
    using line_checksum [of "''A B C''" "''A''" "''B''" "CHR ''C''" "[]" "''A B C''"] t s
    by simp
qed

text \<open>
  C4, as the spec states it, fails: a payload that holds a line with a wrong checksum
  need not fail with the checksum error.  When a line before it is malformed, the
  failure is that line's: here the first line has one token, and the error is the
  \<open>ValueError\<close> of the unpacking, not a \<open>TeleinfoException\<close>.
\<close>

theorem first_error_counterexample:
  "frame_lines (''X'' @ [CHR 0x0D, CHR 0x0A] @ ''A B Z'') = [''X'', ''A B Z'']
   \<and> embedded_checksum ''A B Z'' = Some 90
   \<and> line_sum ''A B Z'' = 67
   \<and> parse_frame (''X'' @ [CHR 0x0D, CHR 0x0A] @ ''A B Z'') = Inl ValueError"
  by code_simp

text \<open>
  C4, amended.  For every frame payload that holds a line whose computed checksum
  differs from the checksum it carries, parsing fails and returns no record at all, so
  no field of an earlier line is exposed.  When every line before that line is accepted,
  the failure is the \<open>TeleinfoException\<close> that names the line, the computed checksum,
  the checksum carried, and the frame data.
\<close>

theorem checksum_mismatch_aborts_frame:
  "frame_lines payload = pre @ line # post \<Longrightarrow>
   embedded_checksum line = Some c \<Longrightarrow>
   line_sum line \<noteq> c \<Longrightarrow>
   (\<exists>e. parse_frame payload = Inl e)
   \<and> (list_all (line_ok payload) pre \<longrightarrow>
        parse_frame payload = Inl (TeleinfoException line (line_sum line) c payload))"
proof -
  assume lines: "frame_lines payload = pre @ line # post"
    and c: "embedded_checksum line = Some c" and ne: "line_sum line \<noteq> c"
  have err: "parse_line payload line = Inl (TeleinfoException line (line_sum line) c payload)"
    using c ne by (rule parse_line_mismatch)
  have "\<exists>e. parse_lines payload (frame_lines payload) [] = Inl e"
    using parse_lines_some_error [of line "frame_lines payload" payload _ "[]"] err lines
    by simp
  then have "\<exists>e. parse_frame payload = Inl e"
    by (auto simp: parse_frame_def)
  moreover have "parse_frame payload = Inl (TeleinfoException line (line_sum line) c payload)"
    if "list_all (line_ok payload) pre"
    using parse_lines_first_error [OF that err, of post "[]"] lines
    by (simp add: parse_frame_def)
  ultimately show ?thesis by blast
qed

theorem checksum_mismatch_aborts_frame_witness:
  "frame_lines (''A B C'' @ [CHR 0x0D, CHR 0x0A] @ ''D E Z'') = [''A B C''] @ ''D E Z'' # []
   \<and> embedded_checksum ''D E Z'' = Some 90
   \<and> line_sum ''D E Z'' \<noteq> 90
   \<and> list_all (line_ok (''A B C'' @ [CHR 0x0D, CHR 0x0A] @ ''D E Z'')) [''A B C'']
   \<and> parse_frame (''A B C'' @ [CHR 0x0D, CHR 0x0A] @ ''D E Z'')
        = Inl (TeleinfoException ''D E Z'' 73 90 (''A B C'' @ [CHR 0x0D, CHR 0x0A] @ ''D E Z''))"
proof -
  let ?p = "''A B C'' @ [CHR 0x0D, CHR 0x0A] @ ''D E Z''"
  have l: "frame_lines ?p = [''A B C''] @ ''D E Z'' # []" by code_simp
  have c: "embedded_checksum ''D E Z'' = Some 90" by code_simp
  have s: "line_sum ''D E Z'' = 73" by code_simp
  have ok: "list_all (line_ok ?p) [''A B C'']" by code_simp
  show ?thesis
    using checksum_mismatch_aborts_frame [OF l c] l c s ok by simp
qed

text \<open>
  C9.  In every record that parsing a frame payload returns, the labels are pairwise
  distinct, so each label has exactly one value; and the value stored under a label is
  the one of the last line of the payload that carries this label (every line of a
  parsed payload is valid).
\<close>

theorem record_keeps_last_value:
  "parse_frame payload = Inr frame \<Longrightarrow>
   distinct (map fst (raw_data frame))
   \<and> map_of (raw_data frame) key = last_value key payload (frame_lines payload)"
proof -
  assume "parse_frame payload = Inr frame"
  then have "parse_lines payload (frame_lines payload) [] = Inr (raw_data frame)"
    by (auto simp: parse_frame_def split: sum.splits)
  from parse_lines_fields [OF this, of key] show ?thesis
    by (simp split: option.splits)
qed

theorem record_keeps_last_value_witness:
  "parse_frame (''A 1 2'' @ [CHR 0x0D, CHR 0x0A] @ ''B 2 4'' @ [CHR 0x0D, CHR 0x0A] @ ''A 3 4'')
     = Inr \<lparr>raw_data = [(ascii ''A'', ''3''), (ascii ''B'', ''2'')]\<rparr>
   \<and> distinct (map fst [(ascii ''A'', ''3''), (ascii ''B'', ''2'')])
   \<and> map_of [(ascii ''A'', ''3''), (ascii ''B'', ''2'')] (ascii ''A'') = Some ''3''
   \<and> last_value (ascii ''A'')
        (''A 1 2'' @ [CHR 0x0D, CHR 0x0A] @ ''B 2 4'' @ [CHR 0x0D, CHR 0x0A] @ ''A 3 4'')
        (frame_lines (''A 1 2'' @ [CHR 0x0D, CHR 0x0A] @ ''B 2 4'' @ [CHR 0x0D, CHR 0x0A] @ ''A 3 4''))
      = Some ''3''"
proof -
  let ?p = "''A 1 2'' @ [CHR 0x0D, CHR 0x0A] @ ''B 2 4'' @ [CHR 0x0D, CHR 0x0A] @ ''A 3 4''"
  have p: "parse_frame ?p = Inr \<lparr>raw_data = [(ascii ''A'', ''3''), (ascii ''B'', ''2'')]\<rparr>"
    by code_simp
  have m: "map_of [(ascii ''A'', ''3''), (ascii ''B'', ''2'')] (ascii ''A'') = Some ''3''"
    by code_simp
  show ?thesis
    using record_keeps_last_value [OF p, of "ascii ''A''"] p m by simp
qed

section \<open>Typed field access\<close>

subsection \<open>The type table and the two formatters\<close>

lemma field_format_range:
  "map_of FIELD_FORMAT key = Some f \<Longrightarrow> f = ''str'' \<or> f = ''int''"
proof -
  assume "map_of FIELD_FORMAT key = Some f"
  then have "(key, f) \<in> set FIELD_FORMAT" by (rule map_of_SomeD)
  then show ?thesis by (auto simp: FIELD_FORMAT_def)
qed

lemma integer_labels:
  "(map_of FIELD_FORMAT key = Some ''int'')
     = (key \<in> set (map ascii [''ISOUSC'', ''HCHC'', ''HCHP'', ''IINST'', ''IMAX'', ''PAPP'']))"
  by (auto simp: FIELD_FORMAT_def ascii_def)

lemma get_present:
  "map_of (raw_data self) key = Some v \<Longrightarrow>
   get self key = (if map_of FIELD_FORMAT key = Some ''int'' then format_int (PyBytes v)
                   else format_str (PyBytes v))"
  by (cases "map_of FIELD_FORMAT key")
     (auto simp: get_def getattr_def dest: field_format_range)

lemma get_missing:
  "map_of (raw_data self) key = None \<Longrightarrow> get self key = Inl AttributeError"
  by (cases "map_of FIELD_FORMAT key")
     (auto simp: get_def getattr_def format_str_def format_int_def dest: field_format_range)

lemma decode_utf8_ascii: "list_all (\<lambda>b. b < 128) bs \<Longrightarrow> decode_utf8 bs = Inr bs"
  by (induction bs) auto

lemma decode_ascii:
  "list_all (\<lambda>c. of_char c < (128::nat)) v \<Longrightarrow> decode v = Inr (map of_char v)"
  by (simp add: decode_def decode_utf8_ascii list_all_iff)

lemma rstrip_decomp: "s = str_rstrip ch s @ replicate (length (takeWhile (\<lambda>c. c = ch) (rev s))) ch"
proof -
  have "rev s = takeWhile (\<lambda>c. c = ch) (rev s) @ dropWhile (\<lambda>c. c = ch) (rev s)"
    by simp
  moreover have "takeWhile (\<lambda>c. c = ch) (rev s) = replicate (length (takeWhile (\<lambda>c. c = ch) (rev s))) ch"
    by (rule replicate_length_same [symmetric]) (auto dest: set_takeWhileD)
  ultimately have "rev s = replicate (length (takeWhile (\<lambda>c. c = ch) (rev s))) ch @ dropWhile (\<lambda>c. c = ch) (rev s)"
    by simp
  then have "rev (rev s) = rev (replicate (length (takeWhile (\<lambda>c. c = ch) (rev s))) ch @ dropWhile (\<lambda>c. c = ch) (rev s))"
    by simp
  then show ?thesis by (simp add: str_rstrip_def)
qed

lemma rstrip_last: "str_rstrip ch s = [] \<or> last (str_rstrip ch s) \<noteq> ch"
proof (cases "dropWhile (\<lambda>c. c = ch) (rev s)")
  case Nil
  then show ?thesis by (simp add: str_rstrip_def)
next
  case (Cons x xs)
  then have "x \<noteq> ch" using hd_dropWhile [of "\<lambda>c. c = ch" "rev s"] by auto
  with Cons show ?thesis by (simp add: str_rstrip_def)
qed

lemma digits_from_digits:
  "list_all is_digit cs \<Longrightarrow>
   digits_from acc cs = Some (foldl (\<lambda>a c. 10 * a + (c - 48)) acc cs)"
  by (induction cs arbitrary: acc) auto

lemma digits_value_digits:
  "ds \<noteq> [] \<Longrightarrow> list_all is_digit ds \<Longrightarrow> digits_value ds = Some (dec_value ds)"
  by (cases ds) (auto simp: digits_value_def dec_value_def digits_from_digits)

lemma digit_not_space: "is_digit c \<Longrightarrow> \<not> is_space_cp c"
  by (auto simp: is_digit_def is_space_cp_def)

lemma strip_digits:
  assumes "ds \<noteq> []" "list_all is_digit ds"
  shows "rev (dropWhile is_space_cp (rev (dropWhile is_space_cp ds))) = ds"
proof -
  have "\<not> is_space_cp (hd ds)" "\<not> is_space_cp (last ds)"
    using assms by (auto simp: list_all_iff intro!: digit_not_space)
  then have "dropWhile is_space_cp ds = ds" "dropWhile is_space_cp (rev ds) = rev ds"
    using assms(1) by (cases ds, auto simp: hd_rev dropWhile_eq_self_iff)+
  then show ?thesis by simp
qed

lemma py_int_digits:
  assumes "ds \<noteq> []" "list_all is_digit ds"
  shows "py_int ds = Inr (int (dec_value ds))"
proof -
  obtain c r where ds: "ds = c # r" using assms(1) by (cases ds) auto
  then have "is_digit c" using assms(2) by simp
  then have "c \<noteq> 43" "c \<noteq> 45" by (auto simp: is_digit_def)
  then show ?thesis
    using strip_digits [OF assms] digits_value_digits [OF assms] ds
    by (simp add: py_int_def)
qed

lemma digits_from_chars:
  "digits_from acc cs = Some n \<Longrightarrow> list_all (\<lambda>c. is_digit c \<or> c = 95) cs"
  by (induction acc cs arbitrary: n rule: digits_from.induct)
     (auto split: if_splits list.splits)

lemma digits_value_chars:
  "digits_value u = Some n \<Longrightarrow> list_all (\<lambda>c. is_digit c \<or> c = 95) u \<and> list_ex is_digit u"
  by (cases u) (auto simp: digits_value_def split: if_splits dest: digits_from_chars)

lemma py_int_error: "py_int s = Inl e \<Longrightarrow> e = ValueError"
  by (auto simp: py_int_def Let_def split: option.splits prod.splits)

lemma in_dropWhile: "c \<in> set s \<Longrightarrow> \<not> P c \<Longrightarrow> c \<in> set (dropWhile P s)"
  by (induction s) auto

lemma py_int_Inr:
  assumes "py_int s = Inr i"
  shows "\<exists>u n. digits_value u = Some n \<and> set u \<subseteq> set s
           \<and> (\<forall>c\<in>set s. \<not> is_space_cp c \<and> c \<noteq> 43 \<and> c \<noteq> 45 \<longrightarrow> c \<in> set u)"
proof -
  define t where "t = rev (dropWhile is_space_cp (rev (dropWhile is_space_cp s)))"
  have pi: "py_int s =
      (case (case t of c # r \<Rightarrow> if c = 43 then (1, r) else if c = 45 then (- 1, r) else (1, t)
                     | [] \<Rightarrow> (1, t)) of
         (sign, u) \<Rightarrow> (case digits_value u of None \<Rightarrow> Inl ValueError
                                          | Some n \<Rightarrow> Inr (sign * int n)))"
    unfolding py_int_def Let_def t_def by (rule refl)
  have sub: "set t \<subseteq> set s"
    unfolding t_def by (auto dest!: set_dropWhileD)
  have keep: "c \<in> set t" if "c \<in> set s" "\<not> is_space_cp c" for c
    unfolding t_def using that by (simp add: in_dropWhile)
  show ?thesis
  proof (cases t)
    case Nil
    then show ?thesis using assms pi by (simp add: digits_value_def)
  next
    case (Cons c r)
    show ?thesis
    proof (cases "c = 43 \<or> c = 45")
      case True
      then obtain n where "digits_value r = Some n"
        using assms Cons pi by (auto split: option.splits)
      moreover have "set r \<subseteq> set s" using sub Cons by auto
      moreover have "c' \<in> set r" if "c' \<in> set s" "\<not> is_space_cp c'" "c' \<noteq> 43" "c' \<noteq> 45" for c'
        using keep [OF that(1,2)] that(3,4) True Cons by auto
      ultimately show ?thesis by blast
    next
      case False
      then obtain n where "digits_value t = Some n"
        using assms Cons pi by (auto split: option.splits)
      then show ?thesis using sub keep by blast
    qed
  qed
qed

lemma py_int_cases: "(\<exists>i. py_int s = Inr i) \<or> py_int s = Inl ValueError"
  by (cases "py_int s") (auto dest: py_int_error)

lemma py_int_invalid_char:
  assumes "list_ex (\<lambda>c. \<not> int_char c) s"
  shows "py_int s = Inl ValueError"
proof (rule ccontr)
  assume "py_int s \<noteq> Inl ValueError"
  then obtain i where "py_int s = Inr i" using py_int_cases [of s] by auto
  from py_int_Inr [OF this] obtain u n where u: "digits_value u = Some n"
    and keep: "\<forall>c\<in>set s. \<not> is_space_cp c \<and> c \<noteq> 43 \<and> c \<noteq> 45 \<longrightarrow> c \<in> set u"
    by blast
  from assms obtain c where c: "c \<in> set s" "\<not> int_char c"
    by (auto simp: list_ex_iff)
  then have "c \<in> set u" using keep by (auto simp: int_char_def)
  moreover have "list_all (\<lambda>c. is_digit c \<or> c = 95) u"
    using digits_value_chars [OF u] by simp
  ultimately show False using c(2) by (auto simp: list_all_iff int_char_def)
qed

lemma py_int_no_digit:
  assumes "list_all (\<lambda>c. \<not> is_digit c) s"
  shows "py_int s = Inl ValueError"
proof (rule ccontr)
  assume "py_int s \<noteq> Inl ValueError"
  then obtain i where "py_int s = Inr i" using py_int_cases [of s] by auto
  from py_int_Inr [OF this] obtain u n where u: "digits_value u = Some n"
    and sub: "set u \<subseteq> set s"
    by blast
  have "list_ex is_digit u" using digits_value_chars [OF u] by simp
  then show False using sub assms by (auto simp: list_ex_iff list_all_iff)
qed

lemma format_int_ascii:
  "list_all (\<lambda>c. of_char c < (128::nat)) v \<Longrightarrow>
   format_int (PyBytes v)
     = (case py_int (map of_char v) of Inl e \<Rightarrow> Inl e | Inr i \<Rightarrow> Inr (PyInt i))"
  by (simp add: format_int_def decode_ascii)

lemma digit_ascii: "is_digit c \<Longrightarrow> c < 128"
  by (simp add: is_digit_def)

lemma format_str_decoded:
  "decode v = Inr s \<Longrightarrow>
   format_str (PyBytes v) = Inr (PyStr (str_rstrip 46 s))
   \<and> (\<exists>n. s = str_rstrip 46 s @ replicate n 46)
   \<and> (str_rstrip 46 s = [] \<or> last (str_rstrip 46 s) \<noteq> 46)"
  using rstrip_decomp [of s 46] rstrip_last [of 46 s]
  by (auto simp: format_str_def)

lemma format_int_digits:
  assumes "v \<noteq> []" and "list_all (\<lambda>c. is_digit (of_char c)) v"
  shows "format_int (PyBytes v) = Inr (PyInt (int (dec_value (map of_char v))))"
proof -
  have "list_all (\<lambda>c. of_char c < (128::nat)) v"
    using assms(2) by (auto simp: list_all_iff dest: digit_ascii)
  moreover have "py_int (map of_char v) = Inr (int (dec_value (map of_char v)))"
    using assms by (intro py_int_digits) (auto simp: list_all_iff)
  ultimately show ?thesis
    by (simp add: format_int_ascii)
qed

lemma format_int_invalid:
  assumes "list_all (\<lambda>c. of_char c < (128::nat)) v"
    and "list_ex (\<lambda>c. \<not> int_char (of_char c)) v \<or> list_all (\<lambda>c. \<not> is_digit (of_char c)) v"
  shows "format_int (PyBytes v) = Inl ValueError"
proof -
  have "py_int (map of_char v) = Inl ValueError"
    using assms(2) py_int_invalid_char [of "map of_char v"] py_int_no_digit [of "map of_char v"]
    by (auto simp: list_ex_iff list_all_iff)
  then show ?thesis
    using assms(1) by (simp add: format_int_ascii)
qed

lemma format_ADCO:
  "format_str (PyBytes ''012345678901.'') = Inr (PyStr (ascii ''012345678901''))"
  by code_simp

lemma format_HCHC: "format_int (PyBytes ''001234567'') = Inr (PyInt 1234567)"
  by (simp add: format_int_def decode_def py_int_def digits_value_def is_digit_def
      is_space_cp_def)

lemma table_ADCO: "map_of FIELD_FORMAT (ascii ''ADCO'') = Some ''str''"
  by code_simp

lemma table_HCHC: "map_of FIELD_FORMAT (ascii ''HCHC'') = Some ''int''"
  by code_simp

text \<open>
  C8.  For every record and every label present in it, \<open>get\<close> coerces the raw value by
  the type table: Integer for the labels the table marks \<open>int\<close>, String for all others,
  those absent from the table included.  The String coercion decodes the bytes and
  strips the trailing dots: the decoded text is the result followed by dots only, and the
  result does not end with a dot.  The Integer coercion parses the decoded text in base
  10: a value made of decimal digits gives the number they denote, and a 7-bit value
  that holds a character no integer text can hold, or no digit at all, fails with the
  \<open>ValueError\<close> of \<open>int\<close> (the spec's FormatError).  In particular \<open>ADCO\<close> with
  raw value \<open>012345678901.\<close> gives the string \<open>012345678901\<close>, and \<open>HCHC\<close> with raw
  value \<open>001234567\<close> gives the integer 1234567.
\<close>

theorem get_coerces_by_type_table:
  assumes "map_of (raw_data self) key = Some v"
  shows "get self key
           = (if map_of FIELD_FORMAT key = Some ''int'' then format_int (PyBytes v)
              else format_str (PyBytes v))
    \<and> get self key
           = (if key \<in> set (map ascii [''ISOUSC'', ''HCHC'', ''HCHP'', ''IINST'', ''IMAX'', ''PAPP''])
              then format_int (PyBytes v)
              else format_str (PyBytes v))
    \<and> (decode v = Inr s \<longrightarrow>
           format_str (PyBytes v) = Inr (PyStr (str_rstrip 46 s))
           \<and> (\<exists>n. s = str_rstrip 46 s @ replicate n 46)
           \<and> (str_rstrip 46 s = [] \<or> last (str_rstrip 46 s) \<noteq> 46))
    \<and> (v \<noteq> [] \<and> list_all (\<lambda>c. is_digit (of_char c)) v \<and> length v \<le> 4300 \<longrightarrow>
           format_int (PyBytes v) = Inr (PyInt (int (dec_value (map of_char v)))))
    \<and> (list_all (\<lambda>c. of_char c < (128::nat)) v
         \<and> (list_ex (\<lambda>c. \<not> int_char (of_char c)) v
              \<or> list_all (\<lambda>c. \<not> is_digit (of_char c)) v)
         \<longrightarrow> format_int (PyBytes v) = Inl ValueError)
    \<and> (key = ascii ''ADCO'' \<and> v = ''012345678901.'' \<longrightarrow>
           get self key = Inr (PyStr (ascii ''012345678901'')))
    \<and> (key = ascii ''HCHC'' \<and> v = ''001234567'' \<longrightarrow> get self key = Inr (PyInt 1234567))"
proof -
  have g: "get self key
           = (if map_of FIELD_FORMAT key = Some ''int'' then format_int (PyBytes v)
              else format_str (PyBytes v))"
    using assms by (rule get_present)
  have adco: "get self key = Inr (PyStr (ascii ''012345678901''))"
    if "key = ascii ''ADCO''" "v = ''012345678901.''"
    using g that table_ADCO format_ADCO by simp
  have hchc: "get self key = Inr (PyInt 1234567)"
    if "key = ascii ''HCHC''" "v = ''001234567''"
    using g that table_HCHC format_HCHC by simp
  have g': "get self key
           = (if key \<in> set (map ascii [''ISOUSC'', ''HCHC'', ''HCHP'', ''IINST'', ''IMAX'', ''PAPP''])
              then format_int (PyBytes v)
              else format_str (PyBytes v))"
    using g integer_labels [of key] by simp
  show ?thesis
    using g g' format_str_decoded [of v s] format_int_digits [of v] format_int_invalid [of v]
      adco hchc
    by blast
qed

theorem get_coerces_by_type_table_witness:
  "map_of (raw_data \<lparr>raw_data = [(ascii ''ADCO'', ''012345678901.''), (ascii ''HCHC'', ''001234567'')]\<rparr>)
     (ascii ''HCHC'') = Some ''001234567''
   \<and> get \<lparr>raw_data = [(ascii ''ADCO'', ''012345678901.''), (ascii ''HCHC'', ''001234567'')]\<rparr>
        (ascii ''HCHC'') = Inr (PyInt 1234567)
   \<and> ''001234567'' \<noteq> []
   \<and> list_all (\<lambda>c. is_digit (of_char c)) ''001234567''
   \<and> length ''001234567'' \<le> 4300
   \<and> format_int (PyBytes ''001234567'') = Inr (PyInt (int (dec_value (map of_char ''001234567''))))
   \<and> dec_value (map of_char ''001234567'') = 1234567"
proof -
  let ?f = "\<lparr>raw_data = [(ascii ''ADCO'', ''012345678901.''), (ascii ''HCHC'', ''001234567'')]\<rparr>"
  have m: "map_of (raw_data ?f) (ascii ''HCHC'') = Some ''001234567''" by code_simp
  have d: "list_all (\<lambda>c. is_digit (of_char c)) ''001234567''"
    by (simp add: is_digit_def)
  have v: "dec_value (map of_char ''001234567'') = 1234567"
    by (simp add: dec_value_def)
  have pre: "''001234567'' \<noteq> [] \<and> list_all (\<lambda>c. is_digit (of_char c)) ''001234567''
               \<and> length ''001234567'' \<le> 4300"
    using d by simp
  note t = get_coerces_by_type_table [OF m, of "[]"]
  have g: "get ?f (ascii ''HCHC'') = Inr (PyInt 1234567)"
    using t by blast
  have fi: "format_int (PyBytes ''001234567'')
              = Inr (PyInt (int (dec_value (map of_char ''001234567''))))"
    using t pre by blast
  show ?thesis
    by (intro conjI m g fi v d) simp_all
qed

text \<open>
  C10.  For every record and every label not present in it, \<open>get\<close> fails: the value
  handed to the formatter is the fallback \<open>''\<close>, a \<open>str\<close>, which has no \<open>decode\<close>,
  so the String formatter and the Integer formatter both raise \<open>AttributeError\<close>; no
  default or empty value is returned.
\<close>

theorem get_missing_label_fails:
  "map_of (raw_data self) key = None \<Longrightarrow>
   get self key = Inl AttributeError
   \<and> format_str (PyStr []) = Inl AttributeError
   \<and> format_int (PyStr []) = Inl AttributeError"
  by (simp add: get_missing format_str_def format_int_def)

theorem get_missing_label_fails_witness:
  "map_of (raw_data \<lparr>raw_data = [(ascii ''ADCO'', ''012345678901.'')]\<rparr>) (ascii ''HCHC'') = None
   \<and> get \<lparr>raw_data = [(ascii ''ADCO'', ''012345678901.'')]\<rparr> (ascii ''HCHC'')
        = Inl AttributeError
   \<and> format_str (PyStr []) = Inl AttributeError
   \<and> format_int (PyStr []) = Inl AttributeError"
proof -
  have m: "map_of (raw_data \<lparr>raw_data = [(ascii ''ADCO'', ''012345678901.'')]\<rparr>)
             (ascii ''HCHC'') = None"
    by code_simp
  show ?thesis
    using get_missing_label_fails [OF m] m by simp
qed

section \<open>The reading loop\<close>

lemma run_loop_error:
  assumes "CHR 0x02 \<notin> set noise" and "CHR 0x03 \<notin> set payload"
    and "parse_frame payload = Inl e"
  shows "run_loop (noise @ CHR 0x02 # payload @ CHR 0x03 # rest)
           = (if is_TeleinfoException e then run_loop rest else ([], Raised e))"
  using read_frame_one [OF assms(1,2), of rest] assms(3)
  by (subst run_loop.simps) simp

text \<open>
  C1 does not hold of the code.  A payload whose first rejected line splits into fewer
  than three tokens makes \<open>_parse_frame\<close> raise the \<open>ValueError\<close> of the unpacking,
  which is not a \<open>TeleinfoException\<close>, the error a checksum mismatch raises.  The
  reading loop catches \<open>TeleinfoException\<close> only: the frame with the malformed line
  ends the loop with the error, and the frames that follow are never read, whereas after
  a frame with a wrong checksum the loop goes on to the next frame.
\<close>

theorem malformed_line_escapes_reader_loop:
  assumes "frame_lines payload = pre @ line # post"
    and "list_all (line_ok payload) pre"
    and "length (bytes_split '' '' (Some 2) line) < 3"
    and "CHR 0x02 \<notin> set noise" and "CHR 0x03 \<notin> set payload"
  shows "parse_frame payload = Inl ValueError
    \<and> \<not> is_TeleinfoException ValueError
    \<and> run_loop (noise @ CHR 0x02 # payload @ CHR 0x03 # rest) = ([], Raised ValueError)"
proof -
  have "parse_line payload line = Inl ValueError"
    using assms(3) by (rule parse_line_few_tokens)
  from parse_lines_first_error [OF assms(2) this, of post "[]"]
  have p: "parse_frame payload = Inl ValueError"
    using assms(1) by (simp add: parse_frame_def)
  show ?thesis
    using p run_loop_error [OF assms(4,5) p, of rest] by simp
qed

theorem malformed_line_escapes_reader_loop_witness:
  "frame_lines ''ABC'' = [] @ ''ABC'' # []
   \<and> list_all (line_ok ''ABC'') []
   \<and> length (bytes_split '' '' (Some 2) ''ABC'') < 3
   \<and> CHR 0x02 \<notin> set ''''
   \<and> CHR 0x03 \<notin> set ''ABC''
   \<and> parse_frame ''ABC'' = Inl ValueError
   \<and> run_loop ([] @ CHR 0x02 # ''ABC'' @ CHR 0x03 # CHR 0x02 # ''A B C'' @ [CHR 0x03])
        = ([], Raised ValueError)
   \<and> run_loop (CHR 0x02 # ''A B Z'' @ CHR 0x03 # CHR 0x02 # ''A B C'' @ [CHR 0x03])
        = ([[(ascii ''A'', PyStr (ascii ''B''))]], Stopped)"
proof -
  have l: "frame_lines ''ABC'' = [] @ ''ABC'' # []" by code_simp
  have n: "length (bytes_split '' '' (Some 2) ''ABC'') < 3" by code_simp
  have c: "run_loop (CHR 0x02 # ''A B Z'' @ CHR 0x03 # CHR 0x02 # ''A B C'' @ [CHR 0x03])
        = ([[(ascii ''A'', PyStr (ascii ''B''))]], Stopped)"
    by code_simp
  show ?thesis
    using malformed_line_escapes_reader_loop
      [of "''ABC''" "[]" "''ABC''" "[]" "[]" "CHR 0x02 # ''A B C'' @ [CHR 0x03]"] l n c
    by simp
qed

end
